theory Spec2Isabelle
  imports Complex_Main "HOL-Library.Word" "HOL-Library.Log_Nat"
begin

unbundle bit_operations_syntax

section \<open>Configuration constants of \<^verbatim>\<open>cec_auto_audio.py\<close>\<close>

text \<open>
  Python integers are unbounded and are modelled as \<open>int\<close>. A Python float is an IEEE 754
  double; the readings of \<^verbatim>\<open>time.time()\<close> and the two durations are modelled as the real
  numbers they denote, and the one float addition of the program, which computes the deadline,
  rounds its exact sum to the nearest double (\<open>float_add\<close> below).
\<close>

definition CONSOLE_LAS :: "int set" where
  "CONSOLE_LAS = {0x4, 0x8, 0xB}"

definition DENON_LA :: int where
  "DENON_LA = 0x5"

definition PENDING_TIMEOUT_SEC :: real where
  "PENDING_TIMEOUT_SEC = 0.5"

definition MIN_INJECTION_INTERVAL_SEC :: real where
  "MIN_INJECTION_INTERVAL_SEC = 3.0"

section \<open>Float addition\<close>

text \<open>
  \<open>binary_exponent x\<close> is, for \<open>x > 0\<close>, the integer \<open>e\<close> with \<open>2^e \<le> x < 2^(e+1)\<close>. A double has a
  significand of 53 bits, so the doubles next to \<open>x\<close> are the multiples of \<open>2^(e-52)\<close>; below the
  smallest normal number \<open>2^(-1022)\<close> the spacing stays \<open>2^(-1074)\<close>. \<open>round_double\<close> rounds to the
  nearest of them, a tie going to the even significand. Values of magnitude \<open>2^1024\<close> and above,
  where a double overflows, do not occur as sums of a clock reading and a timeout.
\<close>

definition binary_exponent :: "real \<Rightarrow> int" where
  "binary_exponent x =
     (if 1 \<le> x then bitlen \<lfloor>x\<rfloor> - 1 else - bitlen (\<lceil>1 / x\<rceil> - 1))"

definition quantum_exponent :: "real \<Rightarrow> int" where
  "quantum_exponent x = max (binary_exponent \<bar>x\<bar>) (- 1022)"

definition round_half_even :: "real \<Rightarrow> int" where
  "round_half_even x =
     (let f = \<lfloor>x\<rfloor>; d = x - of_int f in
      if d < 1 / 2 then f
      else if 1 / 2 < d then f + 1
      else if even f then f else f + 1)"

definition round_double :: "real \<Rightarrow> real" where
  "round_double x =
     (if x = 0 then 0
      else (let u = 2 powi (quantum_exponent x - 52)
            in sgn x * (of_int (round_half_even (\<bar>x\<bar> / u)) * u)))"

text \<open>The operator \<^verbatim>\<open>+\<close> on two floats: the exact sum, rounded.\<close>

definition float_add :: "real \<Rightarrow> real \<Rightarrow> real" where
  "float_add x y = round_double (x + y)"

section \<open>The frame parser\<close>

subsection \<open>Character classes of \<^verbatim>\<open>FRAME_RE\<close>\<close>

text \<open>
  A line is a \<open>string\<close>; each \<open>char\<close> stands for the code point of the same number.
  \<open>isspace\<close> is the class \<^verbatim>\<open>\s\<close> of a str pattern on these code points, \<open>is_hex\<close> the
  class \<^verbatim>\<open>[0-9A-Fa-f]\<close> and \<open>is_data_char\<close> the class \<^verbatim>\<open>[0-9A-Fa-f:]\<close>.
\<close>

definition isspace :: "char \<Rightarrow> bool" where
  "isspace c = (let n = (of_char c :: nat) in
     (9 \<le> n \<and> n \<le> 13) \<or> (28 \<le> n \<and> n \<le> 32) \<or> n = 133 \<or> n = 160)"

definition is_hex :: "char \<Rightarrow> bool" where
  "is_hex c = (let n = (of_char c :: nat) in
     (48 \<le> n \<and> n \<le> 57) \<or> (65 \<le> n \<and> n \<le> 70) \<or> (97 \<le> n \<and> n \<le> 102))"

definition is_data_char :: "char \<Rightarrow> bool" where
  "is_data_char c = (is_hex c \<or> c = CHR '':'')"

subsection \<open>\<^verbatim>\<open>int(s, 16)\<close> on a run of hexadecimal digits\<close>

definition hex_digit_val :: "char \<Rightarrow> int" where
  "hex_digit_val c = (let n = (of_char c :: int) in
     if 48 \<le> n \<and> n \<le> 57 then n - 48
     else if 65 \<le> n \<and> n \<le> 70 then n - 55
     else n - 87)"

definition int16 :: "string \<Rightarrow> int" where
  "int16 s = foldl (\<lambda>acc c. 16 * acc + hex_digit_val c) 0 s"

subsection \<open>\<^verbatim>\<open>FRAME_RE.search\<close>\<close>

text \<open>
  \<open>match_here s\<close> is an attempt to match the pattern at the first character of \<open>s\<close>. It
  returns the three groups; the third is \<open>None\<close> when the optional data part took no part
  in the match. The quantifiers are greedy; since no whitespace character is a hexadecimal
  digit and nothing follows the data part in the pattern, giving characters back never
  turns a failed attempt into a match, so one pass decides the attempt.
\<close>

definition match_here :: "string \<Rightarrow> (string \<times> string \<times> string option) option" where
  "match_here s =
     (case s of
        g1 # g2 # r \<Rightarrow>
          if g1 = CHR ''>'' \<and> g2 = CHR ''>'' \<and> takeWhile isspace r \<noteq> [] then
            (case dropWhile isspace r of
               h1 # h2 # c # o1 # o2 # r2 \<Rightarrow>
                 if is_hex h1 \<and> is_hex h2 \<and> c = CHR '':'' \<and> is_hex o1 \<and> is_hex o2 then
                   Some ([h1, h2], [o1, o2],
                     (case r2 of
                        c2 # r3 \<Rightarrow>
                          if c2 = CHR '':'' \<and> takeWhile is_data_char r3 \<noteq> []
                          then Some (takeWhile is_data_char r3) else None
                      | [] \<Rightarrow> None))
                 else None
             | _ \<Rightarrow> None)
          else None
      | _ \<Rightarrow> None)"

text \<open>\<open>search\<close> tries every start position from the left and keeps the first match.\<close>

fun search :: "string \<Rightarrow> (string \<times> string \<times> string option) option" where
  "search [] = match_here []"
| "search (c # cs) = (case match_here (c # cs) of Some m \<Rightarrow> Some m | None \<Rightarrow> search cs)"

subsection \<open>\<^verbatim>\<open>str.split(":")\<close>\<close>

fun split_colon :: "string \<Rightarrow> string list" where
  "split_colon [] = [[]]"
| "split_colon (c # cs) =
     (if c = CHR '':'' then [] # split_colon cs
      else (case split_colon cs of p # ps \<Rightarrow> (c # p) # ps | [] \<Rightarrow> [[c]]))"

subsection \<open>\<^verbatim>\<open>parse_frame\<close>\<close>

text \<open>The returned tuple is \<open>(src_la, dst_la, opcode, data)\<close>; \<open>None\<close> is "not a frame".\<close>

type_synonym frame = "int \<times> int \<times> int \<times> int list"

definition parse_frame :: "string \<Rightarrow> frame option" where
  "parse_frame line =
     (case search line of
        None \<Rightarrow> None
      | Some (g1, g2, g3) \<Rightarrow>
          (let header = int16 g1;
               opcode = int16 g2;
               data_raw = g3;
               src_la = drop_bit 4 header;
               dst_la = header AND 0xF;
               data = (case data_raw of
                         None \<Rightarrow> []
                       | Some raw \<Rightarrow> map int16 (filter (\<lambda>b. b \<noteq> []) (split_colon raw)))
           in Some (src_la, dst_la, opcode, data)))"

section \<open>The watch loop of \<^verbatim>\<open>main\<close>\<close>

subsection \<open>State, inputs and effects\<close>

text \<open>The dict \<^verbatim>\<open>pending\<close> with its keys, and the two local variables of the loop.\<close>

record pending_console =
  la :: int
  phys :: string
  deadline :: real

record state =
  pending :: "pending_console option"
  last_injection_time :: real

text \<open>
  What one iteration of \<^verbatim>\<open>for line in proc.stdout\<close> receives from outside: the line read,
  the reading of \<^verbatim>\<open>time.time()\<close> (an iteration reads the clock at most once) and whether
  writing to the pipe of cec-client would succeed or raise \<^verbatim>\<open>BrokenPipeError\<close>. A keyboard
  interrupt and the shutdown in the \<^verbatim>\<open>finally\<close> block lie outside the loop and are not part
  of the model.
\<close>

datatype write_result = Write_ok | Broken_pipe

record iteration =
  line :: string
  clock :: real
  stdin_result :: write_result

text \<open>
  The effects of an iteration, in order. Log lines are kept by kind with the values they
  print (the wall-clock stamp \<^verbatim>\<open>ts\<close> is left out); \<open>Stdin_write\<close> is a write to cec-client
  that succeeded.
\<close>

datatype action =
    Print_line string
  | Log_denon_detected
  | Log_satisfied int string
  | Log_became_active int string
  | Log_not_playback int
  | Log_skipped int string
  | Log_dry_run string
  | Log_sending string
  | Stdin_write string
  | Log_write_failed string

subsection \<open>Helpers of the loop body\<close>

definition rstrip_newline :: "string \<Rightarrow> string" where
  "rstrip_newline s = rev (dropWhile (\<lambda>c. c = CHR 0x0A) (rev s))"

text \<open>\<^verbatim>\<open>format(n, "02x")\<close>: lower-case hexadecimal, zero-padded to two characters.\<close>

definition hex_char :: "nat \<Rightarrow> char" where
  "hex_char d = (if d < 10 then char_of (48 + d) else char_of (87 + d))"

fun hex_digits :: "nat \<Rightarrow> string" where
  "hex_digits n = (if n < 16 then [hex_char n] else hex_digits (n div 16) @ [hex_char (n mod 16)])"

definition format_02x :: "int \<Rightarrow> string" where
  "format_02x n =
     (if n < 0 then CHR ''-'' # hex_digits (nat (- n))
      else (let ds = hex_digits (nat n) in replicate (2 - length ds) CHR ''0'' @ ds))"

text \<open>The two conditions that classify a frame, as the loop writes them.\<close>

definition is_set_system_audio_mode :: "frame \<Rightarrow> bool" where
  "is_set_system_audio_mode f =
     (case f of (src_la, dst_la, opcode, data) \<Rightarrow>
        src_la = DENON_LA \<and> dst_la = 0xF \<and> opcode = 0x72 \<and> data \<noteq> [] \<and> hd data = 0x01)"

definition is_active_source :: "frame \<Rightarrow> bool" where
  "is_active_source f =
     (case f of (src_la, dst_la, opcode, data) \<Rightarrow>
        dst_la = 0xF \<and> opcode = 0x82 \<and> length data \<ge> 2)"

definition cmd_str :: string where
  "cmd_str = ''tx 15:70:00:00''"

subsection \<open>The timeout check (step 3 of the loop body)\<close>

text \<open>
  The result is the new state, the effects, and whether the loop goes on (\<open>False\<close> is the
  \<^verbatim>\<open>break\<close> after \<^verbatim>\<open>BrokenPipeError\<close>, which skips the final \<^verbatim>\<open>pending = None\<close>).
  \<^verbatim>\<open>DRY_RUN\<close> is a parameter. The rate-limit test compares the difference of two readings
  with the double 3.0; it is modelled with the exact difference, which for readings of
  \<^verbatim>\<open>time.time()\<close> falls on the same side of 3.0 as the rounded one (\<open>rate_limit_test_exact\<close>).
\<close>

definition timeout_check :: "bool \<Rightarrow> state \<Rightarrow> real \<Rightarrow> write_result \<Rightarrow> state \<times> action list \<times> bool" where
  "timeout_check DRY_RUN s now wr =
     (case pending s of
        None \<Rightarrow> (s, [], True)
      | Some p \<Rightarrow>
          if now \<ge> deadline p then
            if now - last_injection_time s < MIN_INJECTION_INTERVAL_SEC then
              (s\<lparr>pending := None\<rparr>, [Log_skipped (la p) (phys p)], True)
            else if DRY_RUN then
              (s\<lparr>pending := None\<rparr>, [Log_dry_run cmd_str], True)
            else
              (case wr of
                 Write_ok \<Rightarrow>
                   (s\<lparr>last_injection_time := now, pending := None\<rparr>,
                    [Log_sending cmd_str, Stdin_write (cmd_str @ [CHR 0x0A])], True)
               | Broken_pipe \<Rightarrow>
                   (s, [Log_sending cmd_str, Log_write_failed cmd_str], False))
          else (s, [], True))"

subsection \<open>One iteration\<close>

definition loop_body :: "bool \<Rightarrow> state \<Rightarrow> iteration \<Rightarrow> state \<times> action list \<times> bool" where
  "loop_body DRY_RUN s it =
     (let l = rstrip_newline (line it) in
      case parse_frame l of
        None \<Rightarrow> (s, [Print_line l], True)
      | Some f \<Rightarrow>
          if is_set_system_audio_mode f then
            (case pending s of
               None \<Rightarrow> (s, [Print_line l, Log_denon_detected], True)
             | Some p \<Rightarrow>
                 (s\<lparr>pending := None\<rparr>,
                  [Print_line l, Log_denon_detected, Log_satisfied (la p) (phys p)], True))
          else if is_active_source f then
            (case f of (src_la, dst_la, opcode, data) \<Rightarrow>
               (let ph = format_02x (data ! 0) @ '':'' @ format_02x (data ! 1) in
                if src_la \<in> CONSOLE_LAS then
                  (s\<lparr>pending := Some \<lparr>la = src_la, phys = ph,
                                       deadline = float_add (clock it) PENDING_TIMEOUT_SEC\<rparr>\<rparr>,
                   [Print_line l, Log_became_active src_la ph], True)
                else (s, [Print_line l, Log_not_playback src_la], True)))
          else
            (case timeout_check DRY_RUN s (clock it) (stdin_result it) of
               (s', acts, go_on) \<Rightarrow> (s', Print_line l # acts, go_on)))"

subsection \<open>The loop over the lines of cec-client\<close>

text \<open>
  The loop runs over the lines cec-client prints until its output ends or the body breaks.
  The third component tells which: \<open>True\<close> when every line was consumed.
\<close>

fun main_loop :: "bool \<Rightarrow> state \<Rightarrow> iteration list \<Rightarrow> state \<times> action list \<times> bool" where
  "main_loop DRY_RUN s [] = (s, [], True)"
| "main_loop DRY_RUN s (it # its) =
     (case loop_body DRY_RUN s it of
        (s', acts, go_on) \<Rightarrow>
          if go_on then
            (case main_loop DRY_RUN s' its of (s'', acts', fin) \<Rightarrow> (s'', acts @ acts', fin))
          else (s', acts, False))"

definition initial_state :: state where
  "initial_state = \<lparr>pending = None, last_injection_time = 0.0\<rparr>"

definition main :: "bool \<Rightarrow> iteration list \<Rightarrow> state \<times> action list \<times> bool" where
  "main DRY_RUN its = main_loop DRY_RUN initial_state its"

text \<open>The commands written to cec-client among a list of effects.\<close>

definition injections :: "action list \<Rightarrow> string list" where
  "injections acts = concat (map (\<lambda>a. case a of Stdin_write c \<Rightarrow> [c] | _ \<Rightarrow> []) acts)"

section \<open>Vocabulary for the statements about the loop\<close>

text \<open>The frame an iteration works on: the parse of its line without trailing newlines.\<close>

definition frame_of :: "iteration \<Rightarrow> frame option" where
  "frame_of it = parse_frame (rstrip_newline (line it))"

text \<open>
  An iteration is a console announcement when its frame takes the branch that assigns
  \<^verbatim>\<open>pending\<close>, and a timeout step when its frame falls through to step 3 of the body.
\<close>

definition announces_console :: "iteration \<Rightarrow> bool" where
  "announces_console it =
     (case frame_of it of
        None \<Rightarrow> False
      | Some f \<Rightarrow> \<not> is_set_system_audio_mode f \<and> is_active_source f \<and> fst f \<in> CONSOLE_LAS)"

definition is_timeout_step :: "iteration \<Rightarrow> bool" where
  "is_timeout_step it =
     (case frame_of it of
        None \<Rightarrow> False
      | Some f \<Rightarrow> \<not> is_set_system_audio_mode f \<and> \<not> is_active_source f)"


section \<open>Facts about float addition\<close>

subsection \<open>The binary exponent\<close>

lemma binary_exponent_bounds:
  assumes "0 < x"
  shows "2 powi binary_exponent x \<le> x \<and> x < 2 powi (binary_exponent x + 1)"
proof (cases "1 \<le> x")
  case True
  let ?n = "\<lfloor>x\<rfloor>" and ?b = "bitlen \<lfloor>x\<rfloor>"
  have n: "0 < ?n" using True by linarith
  have b1: "1 \<le> ?b" using n bitlen_eq_zero_iff [of ?n] bitlen_nonneg [of ?n] by linarith
  from bitlen_bounds [OF n] have lo: "2 ^ nat (?b - 1) \<le> ?n" and hi: "?n < 2 ^ nat ?b" by simp_all
  have "(2::real) ^ nat (?b - 1) \<le> of_int ?n"
    using lo by (metis of_int_le_iff of_int_numeral of_int_power)
  also have "\<dots> \<le> x" by simp
  finally have l: "(2::real) ^ nat (?b - 1) \<le> x" .
  from hi have "?n + 1 \<le> 2 ^ nat ?b" by simp
  then have "of_int (?n + 1) \<le> (2::real) ^ nat ?b"
    by (metis of_int_le_iff of_int_numeral of_int_power)
  moreover have "x < of_int (?n + 1)" by linarith
  ultimately have h: "x < (2::real) ^ nat ?b" by linarith
  have e: "binary_exponent x = ?b - 1" using True by (simp add: binary_exponent_def)
  show ?thesis using l h b1 by (simp add: e power_int_def)
next
  case False
  let ?y = "1 / x"
  let ?m = "\<lceil>?y\<rceil> - 1" and ?b = "bitlen (\<lceil>1 / x\<rceil> - 1)"
  have y: "1 < ?y" using False assms by simp
  then have m: "0 < ?m" by linarith
  have b1: "1 \<le> ?b" using m bitlen_eq_zero_iff [of ?m] bitlen_nonneg [of ?m] by linarith
  from bitlen_bounds [OF m] have lo: "2 ^ nat (?b - 1) \<le> ?m" and hi: "?m < 2 ^ nat ?b" by simp_all
  have "(2::real) ^ nat (?b - 1) \<le> of_int ?m"
    using lo by (metis of_int_le_iff of_int_numeral of_int_power)
  moreover have "of_int ?m < ?y" by linarith
  ultimately have l: "(2::real) ^ nat (?b - 1) < ?y" by linarith
  from hi have "?m + 1 \<le> 2 ^ nat ?b" by simp
  then have "of_int (?m + 1) \<le> (2::real) ^ nat ?b"
    by (metis of_int_le_iff of_int_numeral of_int_power)
  moreover have "?y \<le> of_int (?m + 1)" by simp
  ultimately have h: "?y \<le> (2::real) ^ nat ?b" by linarith
  have e: "binary_exponent x = - ?b" using False by (simp add: binary_exponent_def)
  have p: "(0::real) < 2 ^ nat ?b" "(0::real) < 2 ^ nat (?b - 1)" by simp_all
  from h assms p have lower: "1 / 2 ^ nat ?b \<le> x"
    by (simp add: field_simps)
  from l assms p have upper: "x < 1 / 2 ^ nat (?b - 1)"
    by (simp add: field_simps)
  have "2 powi (- ?b) = 1 / (2::real) ^ nat ?b"
    using b1 by (simp add: power_int_def field_simps)
  moreover have "2 powi (- ?b + 1) = 1 / (2::real) ^ nat (?b - 1)"
  proof (cases "?b = 1")
    case True
    then show ?thesis by (simp add: power_int_def)
  next
    case False
    with b1 have "- ?b + 1 < 0" "nat (- (- ?b + 1)) = nat (?b - 1)" by simp_all
    then show ?thesis by (simp add: power_int_def field_simps)
  qed
  ultimately show ?thesis using lower upper by (simp add: e)
qed

lemma binary_exponent_mono:
  assumes "0 < x" "x \<le> y"
  shows "binary_exponent x \<le> binary_exponent y"
proof (rule ccontr)
  assume "\<not> binary_exponent x \<le> binary_exponent y"
  then have "binary_exponent y + 1 \<le> binary_exponent x" by simp
  then have "(2::real) powi (binary_exponent y + 1) \<le> 2 powi binary_exponent x"
    by (intro power_int_increasing) simp_all
  moreover have "y < 2 powi (binary_exponent y + 1)"
    using binary_exponent_bounds [of y] assms by simp
  moreover have "2 powi binary_exponent x \<le> x"
    using binary_exponent_bounds [of x] assms by simp
  ultimately show False using assms by linarith
qed

subsection \<open>Rounding is monotone\<close>

lemma round_half_even_of_int [simp]: "round_half_even (of_int n) = n"
  by (simp add: round_half_even_def)

lemma round_half_even_range:
  "\<lfloor>x\<rfloor> \<le> round_half_even x \<and> round_half_even x \<le> \<lfloor>x\<rfloor> + 1"
  by (simp add: round_half_even_def Let_def)

lemma round_half_even_mono:
  assumes "x \<le> y"
  shows "round_half_even x \<le> round_half_even y"
proof (cases "\<lfloor>x\<rfloor> = \<lfloor>y\<rfloor>")
  case True
  then show ?thesis using assms by (auto simp: round_half_even_def Let_def)
next
  case False
  with assms have "\<lfloor>x\<rfloor> + 1 \<le> \<lfloor>y\<rfloor>" using floor_mono [OF assms] by linarith
  with round_half_even_range [of x] round_half_even_range [of y] show ?thesis by linarith
qed

lemma round_double_pos:
  "0 < x \<Longrightarrow> round_double x =
     of_int (round_half_even (x / 2 powi (quantum_exponent x - 52))) * 2 powi (quantum_exponent x - 52)"
  by (simp add: round_double_def Let_def)

lemma round_double_minus: "round_double (- x) = - round_double x"
  by (simp add: round_double_def quantum_exponent_def Let_def sgn_minus)

lemma round_double_zero [simp]: "round_double 0 = 0"
  by (simp add: round_double_def)

lemma quantum_exponent_mono:
  "0 < x \<Longrightarrow> x \<le> y \<Longrightarrow> quantum_exponent x \<le> quantum_exponent y"
  using binary_exponent_mono [of x y] by (simp add: quantum_exponent_def)

lemma powi_split: "(2::real) powi (e + 1) = of_int (2 ^ 53) * 2 powi (e - 52)"
proof -
  have "(2::real) powi (53 + (e - 52)) = 2 powi 53 * 2 powi (e - 52)"
    by (rule power_int_add) simp
  moreover have "53 + (e - 52) = e + 1" by simp
  moreover have "(2::real) powi 53 = of_int (2 ^ 53)" by (simp add: power_int_def)
  ultimately show ?thesis by (simp only:)
qed

lemma powi_split_low: "(2::real) powi e = of_int (2 ^ 52) * 2 powi (e - 52)"
proof -
  have "(2::real) powi (52 + (e - 52)) = 2 powi 52 * 2 powi (e - 52)"
    by (rule power_int_add) simp
  moreover have "52 + (e - 52) = e" by simp
  moreover have "(2::real) powi 52 = of_int (2 ^ 52)" by (simp add: power_int_def)
  ultimately show ?thesis by (simp only:)
qed

lemma round_double_upper:
  assumes "0 < x"
  shows "round_double x \<le> 2 powi (quantum_exponent x + 1)"
proof -
  let ?e = "quantum_exponent x"
  let ?u = "(2::real) powi (?e - 52)"
  have u: "0 < ?u" by simp
  have "binary_exponent x + 1 \<le> ?e + 1" using assms by (simp add: quantum_exponent_def)
  then have "(2::real) powi (binary_exponent x + 1) \<le> 2 powi (?e + 1)"
    by (intro power_int_increasing) simp_all
  with binary_exponent_bounds [OF assms] have "x \<le> 2 powi (?e + 1)" by linarith
  then have "x \<le> of_int (2 ^ 53) * ?u" by (simp only: powi_split)
  then have "x / ?u \<le> of_int (2 ^ 53)" using u by (simp add: field_simps)
  from round_half_even_mono [OF this] have "round_half_even (x / ?u) \<le> 2 ^ 53"
    by (simp only: round_half_even_of_int)
  then have "of_int (round_half_even (x / ?u)) \<le> (of_int (2 ^ 53) :: real)"
    by (simp only: of_int_le_iff)
  then have "of_int (round_half_even (x / ?u)) * ?u \<le> of_int (2 ^ 53) * ?u"
    using u by (intro mult_right_mono) simp_all
  then show ?thesis by (simp only: round_double_pos [OF assms] powi_split)
qed

lemma round_double_lower:
  assumes "0 < x" "- 1022 \<le> binary_exponent x"
  shows "2 powi quantum_exponent x \<le> round_double x"
proof -
  let ?e = "quantum_exponent x"
  let ?u = "(2::real) powi (?e - 52)"
  have u: "0 < ?u" by simp
  have e: "?e = binary_exponent x" using assms by (simp add: quantum_exponent_def)
  with binary_exponent_bounds [OF assms(1)] have "2 powi ?e \<le> x" by simp
  then have "of_int (2 ^ 52) * ?u \<le> x" by (simp only: powi_split_low [symmetric])
  then have "of_int (2 ^ 52) \<le> x / ?u" using u by (simp add: field_simps)
  from round_half_even_mono [OF this] have "2 ^ 52 \<le> round_half_even (x / ?u)"
    by (simp only: round_half_even_of_int)
  then have "(of_int (2 ^ 52) :: real) \<le> of_int (round_half_even (x / ?u))"
    by (simp only: of_int_le_iff)
  then have "of_int (2 ^ 52) * ?u \<le> of_int (round_half_even (x / ?u)) * ?u"
    using u by (intro mult_right_mono) simp_all
  then show ?thesis by (simp only: round_double_pos [OF assms(1)] powi_split_low [symmetric])
qed

lemma round_double_nonneg: "0 \<le> x \<Longrightarrow> 0 \<le> round_double x"
proof (cases "x = 0")
  case True
  then show ?thesis by simp
next
  case False
  assume "0 \<le> x"
  with False have p: "0 < x" by simp
  have "0 \<le> x / 2 powi (quantum_exponent x - 52)" using p by simp
  from round_half_even_mono [OF this] have "0 \<le> round_half_even (x / 2 powi (quantum_exponent x - 52))"
    using round_half_even_of_int [of 0] by simp
  then show ?thesis by (simp add: round_double_pos [OF p])
qed

lemma round_double_mono_pos:
  assumes "0 < x" "x \<le> y"
  shows "round_double x \<le> round_double y"
proof -
  have y: "0 < y" using assms by linarith
  let ?ex = "quantum_exponent x" and ?ey = "quantum_exponent y"
  have le: "?ex \<le> ?ey" using assms by (rule quantum_exponent_mono)
  show ?thesis
  proof (cases "?ex = ?ey")
    case True
    let ?u = "(2::real) powi (?ey - 52)"
    have u: "0 < ?u" by simp
    have "x / ?u \<le> y / ?u" using assms(2) u by (simp add: divide_right_mono)
    from round_half_even_mono [OF this]
    have "(of_int (round_half_even (x / ?u)) :: real) \<le> of_int (round_half_even (y / ?u))"
      by (simp only: of_int_le_iff)
    then have "of_int (round_half_even (x / ?u)) * ?u \<le> of_int (round_half_even (y / ?u)) * ?u"
      using u by (intro mult_right_mono) simp_all
    then show ?thesis by (simp only: round_double_pos [OF assms(1)] round_double_pos [OF y] True)
  next
    case False
    with le have lt: "?ex + 1 \<le> ?ey" by simp
    then have "- 1022 < ?ey" by (simp add: quantum_exponent_def)
    then have "- 1022 \<le> binary_exponent y" using y by (simp add: quantum_exponent_def)
    from round_double_lower [OF y this] have "2 powi ?ey \<le> round_double y" .
    moreover have "(2::real) powi (?ex + 1) \<le> 2 powi ?ey"
      using lt by (intro power_int_increasing) simp_all
    moreover note round_double_upper [OF assms(1)]
    ultimately show ?thesis by linarith
  qed
qed

lemma round_double_mono:
  assumes "x \<le> y"
  shows "round_double x \<le> round_double y"
proof -
  consider "0 < x" | "x \<le> 0" "0 \<le> y" | "y < 0" by linarith
  then show ?thesis
  proof cases
    case 1
    then show ?thesis using assms by (rule round_double_mono_pos)
  next
    case 2
    have "0 \<le> round_double (- x)" using 2(1) by (intro round_double_nonneg) simp
    then have "round_double x \<le> 0" by (simp add: round_double_minus)
    with round_double_nonneg [OF 2(2)] show ?thesis by linarith
  next
    case 3
    have "round_double (- y) \<le> round_double (- x)"
      using 3 assms by (intro round_double_mono_pos) simp_all
    then show ?thesis by (simp add: round_double_minus)
  qed
qed


text \<open>
  The rounded sum can lie below the exact one: here the exact sum is halfway between two
  doubles and the tie goes to the even significand.
\<close>

lemma float_add_below_exact_sum:
  "float_add (2 ^ 31 - 3 / 2 ^ 22) PENDING_TIMEOUT_SEC = 2 ^ 31 + 1 / 2 - 1 / 2 ^ 20"
  by code_simp


subsection \<open>The rate-limit test\<close>

text \<open>
  A double of magnitude 2 or more is a multiple of \<open>2^(-51)\<close>, and so is the difference of two
  such doubles, or of one and 0.0. For such a difference the test against 3.0 gives the same
  answer on the exact value and on its rounding.
\<close>

lemma rate_limit_test_exact:
  assumes "d = of_int k / 2 ^ 51"
  shows "round_double d < MIN_INJECTION_INTERVAL_SEC \<longleftrightarrow> d < MIN_INJECTION_INTERVAL_SEC"
proof
  assume r: "round_double d < MIN_INJECTION_INTERVAL_SEC"
  show "d < MIN_INJECTION_INTERVAL_SEC"
  proof (rule ccontr)
    assume "\<not> d < MIN_INJECTION_INTERVAL_SEC"
    then have "3 \<le> d" by (simp add: MIN_INJECTION_INTERVAL_SEC_def)
    from round_double_mono [OF this] have "round_double 3 \<le> round_double d" .
    moreover have "round_double 3 = 3" by code_simp
    ultimately show False using r by (simp add: MIN_INJECTION_INTERVAL_SEC_def)
  qed
next
  assume "d < MIN_INJECTION_INTERVAL_SEC"
  then have "of_int k / 2 ^ 51 < (3::real)" using assms by (simp add: MIN_INJECTION_INTERVAL_SEC_def)
  then have "(of_int k :: real) < of_int (3 * 2 ^ 51)" by (simp add: field_simps)
  then have "k < 3 * 2 ^ 51" by (simp only: of_int_less_iff)
  then have "k \<le> 3 * 2 ^ 51 - 1" by simp
  then have "(of_int k :: real) \<le> of_int (3 * 2 ^ 51 - 1)" by (simp only: of_int_le_iff)
  then have "d \<le> 3 - 1 / 2 ^ 51" using assms by (simp add: field_simps)
  from round_double_mono [OF this] have "round_double d \<le> round_double (3 - 1 / 2 ^ 51)" .
  moreover have "round_double (3 - 1 / 2 ^ 51) = 3 - 1 / 2 ^ 51" by code_simp
  ultimately show "round_double d < MIN_INJECTION_INTERVAL_SEC"
    by (simp add: MIN_INJECTION_INTERVAL_SEC_def)
qed

section \<open>Facts about the parser\<close>

lemmas parser_defs = parse_frame_def match_here_def isspace_def is_hex_def is_data_char_def
  int16_def hex_digit_val_def

subsection \<open>Hexadecimal digits and nibbles\<close>

lemma hex_digit_val_range: "is_hex c \<Longrightarrow> 0 \<le> hex_digit_val c \<and> hex_digit_val c \<le> 15"
proof -
  assume h: "is_hex c"
  have e: "(of_char c :: int) = int (of_char c)" by (rule of_nat_of_char [symmetric])
  show ?thesis using h unfolding is_hex_def hex_digit_val_def Let_def e by auto
qed

lemma hex_not_space: "is_hex c \<Longrightarrow> \<not> isspace c"
  by (auto simp: is_hex_def isspace_def Let_def)

lemma int16_two: "int16 [h1, h2] = 16 * hex_digit_val h1 + hex_digit_val h2"
  by (simp add: int16_def)

lemma int16_two_range: "is_hex h1 \<Longrightarrow> is_hex h2 \<Longrightarrow> 0 \<le> int16 [h1, h2] \<and> int16 [h1, h2] \<le> 255"
  using hex_digit_val_range [of h1] hex_digit_val_range [of h2] by (simp add: int16_two)

lemma nibbles_range: "0 \<le> (h::int) \<Longrightarrow> h \<le> 255 \<Longrightarrow> 0 \<le> drop_bit 4 h \<and> drop_bit 4 h \<le> 15 \<and> 0 \<le> h AND 0xF \<and> h AND 0xF \<le> 15"
  apply (simp add: drop_bit_eq_div)
  apply (intro conjI)
  apply simp
  using AND_upper2 [of 15 h] apply simp
  done

lemma int16_Nil: "int16 [] = 0" by (simp add: int16_def)

lemma int16_snoc: "int16 (s @ [c]) = 16 * int16 s + hex_digit_val c"
  by (simp add: int16_def)

lemma int16_nonneg: "\<forall>c\<in>set s. is_hex c \<Longrightarrow> 0 \<le> int16 s"
  by (induction s rule: rev_induct) (auto simp: int16_Nil int16_snoc hex_digit_val_range intro!: add_nonneg_nonneg)

lemma int16_short: "\<forall>c\<in>set s. is_hex c \<Longrightarrow> length s \<le> 2 \<Longrightarrow> int16 s \<le> 255"
proof -
  assume a: "\<forall>c\<in>set s. is_hex c" and l: "length s \<le> 2"
  consider "s = []" | c where "s = [c]" | c d where "s = [c, d]"
    using l by (cases s; cases "tl s"; cases "tl (tl s)") auto
  then show ?thesis
  proof cases
    case 1 then show ?thesis by (simp add: int16_Nil)
  next
    case 2 then show ?thesis using a hex_digit_val_range [of c] by (simp add: int16_def)
  next
    case 3 then show ?thesis using a int16_two_range [of c d] by simp
  qed
qed

subsection \<open>Shape of a match\<close>

lemma match_here_SomeD:
  assumes "match_here s = Some (g1, g2, g3)"
  shows "\<exists>ws h1 h2 o1 o2 r2.
           s = ''>>'' @ ws @ h1 # h2 # CHR '':'' # o1 # o2 # r2 \<and>
           ws \<noteq> [] \<and> (\<forall>c\<in>set ws. isspace c) \<and>
           is_hex h1 \<and> is_hex h2 \<and> is_hex o1 \<and> is_hex o2 \<and>
           g1 = [h1, h2] \<and> g2 = [o1, o2] \<and>
           (g3 = None \<or>
            (\<exists>raw rest. g3 = Some raw \<and> raw \<noteq> [] \<and> (\<forall>c\<in>set raw. is_data_char c) \<and>
                        r2 = CHR '':'' # raw @ rest))"
proof -
  from assms obtain r where s: "s = CHR ''>'' # CHR ''>'' # r" and ws: "takeWhile isspace r \<noteq> []"
    by (auto simp: match_here_def split: list.splits if_splits)
  from assms s ws obtain h1 h2 o1 o2 r2 where
    d: "dropWhile isspace r = h1 # h2 # CHR '':'' # o1 # o2 # r2"
    and hx: "is_hex h1" "is_hex h2" "is_hex o1" "is_hex o2"
    by (auto simp: match_here_def split: list.splits if_splits)
  from assms s ws d hx have g: "g1 = [h1, h2]" "g2 = [o1, o2]"
    and g3: "g3 = (case r2 of
                        c2 # r3 \<Rightarrow>
                          if c2 = CHR '':'' \<and> takeWhile is_data_char r3 \<noteq> []
                          then Some (takeWhile is_data_char r3) else None
                      | [] \<Rightarrow> None)"
    by (auto simp: match_here_def)
  have r: "r = takeWhile isspace r @ h1 # h2 # CHR '':'' # o1 # o2 # r2"
    using takeWhile_dropWhile_id [of isspace r] d by simp
  have sp: "\<forall>c\<in>set (takeWhile isspace r). isspace c"
    by (auto dest: set_takeWhileD)
  have "g3 = None \<or>
            (\<exists>raw rest. g3 = Some raw \<and> raw \<noteq> [] \<and> (\<forall>c\<in>set raw. is_data_char c) \<and>
                        r2 = CHR '':'' # raw @ rest)"
  proof (cases g3)
    case None then show ?thesis by simp
  next
    case (Some raw)
    with g3 obtain r3 where r2: "r2 = CHR '':'' # r3" and raw: "raw = takeWhile is_data_char r3" "raw \<noteq> []"
      by (auto split: list.splits if_splits)
    have "r3 = raw @ dropWhile is_data_char r3" using raw by simp
    moreover have "\<forall>c\<in>set raw. is_data_char c" using raw by (auto dest: set_takeWhileD)
    ultimately show ?thesis using Some r2 raw by blast
  qed
  with s r ws sp hx g show ?thesis
    by (intro exI [of _ "takeWhile isspace r"] exI [of _ h1] exI [of _ h2] exI [of _ o1] exI [of _ o2] exI [of _ r2]) simp
qed

lemma search_SomeD: "search s = Some m \<Longrightarrow> \<exists>pre suf. s = pre @ suf \<and> match_here suf = Some m"
proof (induction s)
  case Nil
  then show ?case by simp
next
  case (Cons c cs)
  show ?case
  proof (cases "match_here (c # cs)")
    case None
    with Cons obtain pre suf where "cs = pre @ suf" "match_here suf = Some m" by auto
    then have "c # cs = (c # pre) @ suf \<and> match_here suf = Some m" by simp
    then show ?thesis by blast
  next
    case (Some m')
    with Cons.prems have "c # cs = [] @ (c # cs) \<and> match_here (c # cs) = Some m" by simp
    then show ?thesis by blast
  qed
qed

lemma split_colon_nonempty: "split_colon s \<noteq> []"
  by (induction s) (auto split: list.splits)

lemma split_colon_piece:
  "p \<in> set (split_colon s) \<Longrightarrow> (\<forall>c\<in>set p. c \<in> set s \<and> c \<noteq> CHR '':'') \<and> (\<exists>a b. s = a @ p @ b)"
proof (induction s arbitrary: p)
  case Nil
  then show ?case by simp
next
  case (Cons c cs)
  show ?case
  proof (cases "c = CHR '':''")
    case True
    with Cons.prems have "p = [] \<or> p \<in> set (split_colon cs)" by auto
    then show ?thesis
    proof
      assume e: "p = []"
      then have "c # cs = [] @ p @ (c # cs)" by simp
      then have "\<exists>a b. c # cs = a @ p @ b" by blast
      with e show ?thesis by simp
    next
      assume m: "p \<in> set (split_colon cs)"
      from Cons.IH [OF m] obtain a b where "cs = a @ p @ b" by blast
      then have "c # cs = (c # a) @ p @ b" by simp
      with Cons.IH [OF m] show ?thesis by (metis list.set_intros(2))
    qed
  next
    case False
    obtain q qs where q: "split_colon cs = q # qs"
      using split_colon_nonempty [of cs] by (cases "split_colon cs") auto
    with False Cons.prems have "p = c # q \<or> p \<in> set qs" by auto
    then show ?thesis
    proof
      assume p: "p = c # q"
      have m: "q \<in> set (split_colon cs)" using q by simp
      from Cons.IH [OF m] have 1: "\<forall>x\<in>set q. x \<in> set cs \<and> x \<noteq> CHR '':''" by blast
      have "\<exists>b. cs = q @ b" using q
      proof (induction cs arbitrary: q qs)
        case Nil then show ?case by simp
      next
        case (Cons d ds)
        then show ?case by (auto split: if_splits list.splits)
      qed
      then obtain b where "c # cs = [] @ p @ b" using p by auto
      with 1 p False show ?thesis by (metis list.set_intros(1) list.set_intros(2) set_ConsD)
    next
      assume "p \<in> set qs"
      then have m: "p \<in> set (split_colon cs)" using q by simp
      from Cons.IH [OF m] obtain a b where "cs = a @ p @ b" by blast
      then have "c # cs = (c # a) @ p @ b" by simp
      with Cons.IH [OF m] show ?thesis by (metis list.set_intros(2))
    qed
  qed
qed

subsection \<open>Accepted lines\<close>

lemma match_here_not_gt: "c \<noteq> CHR ''>'' \<Longrightarrow> match_here (c # cs) = None"
  by (simp add: match_here_def split: list.splits)

lemma search_skip: "CHR ''>'' \<notin> set pre \<Longrightarrow> search (pre @ s) = search s"
  by (induction pre) (auto simp: match_here_not_gt)

lemma search_match: "match_here s = Some m \<Longrightarrow> search s = Some m"
  by (cases s) auto

lemma match_here_shape:
  assumes "ws \<noteq> []" "\<forall>c\<in>set ws. isspace c" "is_hex h1" "is_hex h2" "is_hex o1" "is_hex o2"
  shows "\<exists>g3. match_here (''>>'' @ ws @ [h1, h2] @ '':'' @ [o1, o2] @ rest) = Some ([h1, h2], [o1, o2], g3)"
proof -
  let ?r = "h1 # h2 # CHR '':'' # o1 # o2 # rest"
  have ns: "\<not> isspace h1" using assms(3) by (rule hex_not_space)
  have t: "takeWhile isspace (ws @ ?r) = ws"
    using assms(2) ns by simp
  have d: "dropWhile isspace (ws @ ?r) = ?r"
    using assms(2) ns by simp
  show ?thesis using assms t d by (simp add: match_here_def)
qed

lemma byte_has_two_digits:
  assumes "0 \<le> h" "h \<le> 255"
  shows "\<exists>h1 h2. is_hex h1 \<and> is_hex h2 \<and> int16 [h1, h2] = h"
proof -
  let ?h1 = "hex_char (nat (h div 16))" and ?h2 = "hex_char (nat (h mod 16))"
  have e: "(of_char c :: int) = int (of_char c)" for c
    by (rule of_nat_of_char [symmetric])
  have v: "is_hex (hex_char d) \<and> hex_digit_val (hex_char d) = int d" if "d < 16" for d
    using that unfolding hex_char_def is_hex_def hex_digit_val_def Let_def e by auto
  have a: "nat (h div 16) < 16" using assms by auto
  have b: "nat (h mod 16) < 16" using assms by auto
  have "int16 [?h1, ?h2] = 16 * (h div 16) + h mod 16"
    using v [OF a] v [OF b] assms by (simp add: int16_two pos_imp_zdiv_nonneg_iff)
  then have "int16 [?h1, ?h2] = h" by simp
  with v [OF a] v [OF b] show ?thesis by blast
qed

lemma parse_frame_header_of_match:
  assumes "parse_frame txt = Some (src_la, dst_la, opcode, data)"
  shows "\<exists>pre ws h1 h2 rest.
           txt = pre @ ''>>'' @ ws @ [h1, h2] @ '':'' @ rest \<and> is_hex h1 \<and> is_hex h2 \<and>
           src_la = drop_bit 4 (int16 [h1, h2]) \<and> dst_la = int16 [h1, h2] AND 0xF"
proof -
  from assms obtain g1 g2 g3 where se: "search txt = Some (g1, g2, g3)"
    by (auto simp: parse_frame_def split: option.splits)
  then obtain pre suf where l: "txt = pre @ suf" and m: "match_here suf = Some (g1, g2, g3)"
    using search_SomeD by blast
  from match_here_SomeD [OF m] obtain ws h1 h2 o1 o2 r2 where
    suf: "suf = ''>>'' @ ws @ h1 # h2 # CHR '':'' # o1 # o2 # r2"
    and hx: "is_hex h1" "is_hex h2" and g1: "g1 = [h1, h2]"
    by blast
  from assms se g1 have "src_la = drop_bit 4 (int16 [h1, h2])" "dst_la = int16 [h1, h2] AND 0xF"
    by (auto simp: parse_frame_def Let_def)
  moreover have "txt = pre @ ''>>'' @ ws @ [h1, h2] @ '':'' @ (o1 # o2 # r2)"
    using l suf by simp
  ultimately show ?thesis using hx by blast
qed

section \<open>Claims about the parser\<close>

text \<open>
  C4 (as stated in the specification): every frame returned by \<open>parse_frame\<close> has its two
  addresses in 0..15 and every payload byte in 0..255, each payload byte being written in
  the line with exactly two hexadecimal digits. The data part of the pattern is
  \<^verbatim>\<open>[0-9A-Fa-f:]+\<close>, so a run of three digits between colons is accepted and yields a
  payload element above 255.
\<close>

theorem parse_frame_payload_counterexample:
  "parse_frame ''>> 4f:82:100'' = Some (4, 15, 0x82, [0x100]) \<and> \<not> (0x100 :: int) \<le> 255"
  by (simp add: parser_defs)

text \<open>
  C4 (amended): every frame returned by \<open>parse_frame\<close> has its two addresses in 0..15; every
  payload element is the value of a non-empty run of hexadecimal digits (either case) that
  occurs in the line, it is non-negative, and it is at most 255 whenever its run has at most
  two digits.
\<close>

theorem parse_frame_ranges:
  assumes "parse_frame txt = Some (src_la, dst_la, opcode, data)"
  shows "0 \<le> src_la \<and> src_la \<le> 15 \<and> 0 \<le> dst_la \<and> dst_la \<le> 15 \<and>
         (\<exists>runs. data = map int16 runs \<and>
            (\<forall>r\<in>set runs. r \<noteq> [] \<and> (\<forall>c\<in>set r. is_hex c) \<and> (\<exists>a b. txt = a @ r @ b) \<and>
                           0 \<le> int16 r \<and> (length r \<le> 2 \<longrightarrow> int16 r \<le> 255)))"
proof -
  from assms obtain g1 g2 g3 where se: "search txt = Some (g1, g2, g3)"
    by (auto simp: parse_frame_def split: option.splits)
  then obtain pre suf where l: "txt = pre @ suf" and m: "match_here suf = Some (g1, g2, g3)"
    using search_SomeD by blast
  from match_here_SomeD [OF m] obtain ws h1 h2 o1 o2 r2 where
    suf: "suf = ''>>'' @ ws @ h1 # h2 # CHR '':'' # o1 # o2 # r2"
    and hx: "is_hex h1" "is_hex h2" and g1: "g1 = [h1, h2]"
    and g3: "g3 = None \<or> (\<exists>raw rest. g3 = Some raw \<and> raw \<noteq> [] \<and>
               (\<forall>c\<in>set raw. is_data_char c) \<and> r2 = CHR '':'' # raw @ rest)"
    by blast
  from assms se g1 have src: "src_la = drop_bit 4 (int16 [h1, h2])"
    and dst: "dst_la = int16 [h1, h2] AND 0xF"
    and data: "data = (case g3 of None \<Rightarrow> []
                 | Some raw \<Rightarrow> map int16 (filter (\<lambda>b. b \<noteq> []) (split_colon raw)))"
    by (auto simp: parse_frame_def Let_def)
  have nib: "0 \<le> src_la \<and> src_la \<le> 15 \<and> 0 \<le> dst_la \<and> dst_la \<le> 15"
    using nibbles_range [of "int16 [h1, h2]"] int16_two_range [OF hx] src dst by simp
  have "\<exists>runs. data = map int16 runs \<and>
            (\<forall>r\<in>set runs. r \<noteq> [] \<and> (\<forall>c\<in>set r. is_hex c) \<and> (\<exists>a b. txt = a @ r @ b) \<and>
                           0 \<le> int16 r \<and> (length r \<le> 2 \<longrightarrow> int16 r \<le> 255))"
  proof (cases g3)
    case None
    with data have "data = map int16 []" by simp
    then show ?thesis by (intro exI [of _ "[]"]) simp
  next
    case (Some raw)
    with g3 obtain rest where raw: "\<forall>c\<in>set raw. is_data_char c" and r2: "r2 = CHR '':'' # raw @ rest"
      by auto
    let ?runs = "filter (\<lambda>b. b \<noteq> []) (split_colon raw)"
    have "r \<noteq> [] \<and> (\<forall>c\<in>set r. is_hex c) \<and> (\<exists>a b. txt = a @ r @ b) \<and>
                           0 \<le> int16 r \<and> (length r \<le> 2 \<longrightarrow> int16 r \<le> 255)"
      if r: "r \<in> set ?runs" for r
    proof -
      from r have ne: "r \<noteq> []" and p: "r \<in> set (split_colon raw)" by auto
      from split_colon_piece [OF p] raw have h: "\<forall>c\<in>set r. is_hex c"
        by (auto simp: is_data_char_def)
      from split_colon_piece [OF p] obtain a b where "raw = a @ r @ b" by blast
      then have "txt = (pre @ ''>>'' @ ws @ h1 # h2 # CHR '':'' # o1 # o2 # CHR '':'' # a) @ r @ (b @ rest)"
        using l suf r2 by simp
      then have "\<exists>a b. txt = a @ r @ b" by blast
      with ne h int16_nonneg [OF h] int16_short [OF h] show ?thesis by blast
    qed
    moreover have "data = map int16 ?runs" using data Some by simp
    ultimately show ?thesis by blast
  qed
  with nib show ?thesis by blast
qed

theorem parse_frame_ranges_witness:
  "parse_frame ''>> 4f:82:10:00'' = Some (4, 15, 0x82, [0x10, 0x00]) \<and>
   (\<exists>runs. [0x10, 0x00] = map int16 runs \<and>
            (\<forall>r\<in>set runs. r \<noteq> [] \<and> (\<forall>c\<in>set r. is_hex c) \<and>
                (\<exists>a b. ''>> 4f:82:10:00'' = a @ r @ b) \<and>
                0 \<le> int16 r \<and> (length r \<le> 2 \<longrightarrow> int16 r \<le> 255)))"
proof -
  have h: "parse_frame ''>> 4f:82:10:00'' = Some (4, 15, 0x82, [0x10, 0x00])"
    by (simp add: parser_defs)
  show ?thesis using h parse_frame_ranges [OF h] by blast
qed

text \<open>
  C8: for every header byte value 0..255, written with any two hexadecimal digits in a line
  that the pattern accepts at its marker (some text without the marker character, the marker,
  whitespace, the header, a colon, the opcode, anything), \<open>parse_frame\<close> returns a frame with
  \<open>src_la = header >> 4\<close> and \<open>dst_la = header & 0xF\<close>.
\<close>

theorem parse_frame_header:
  assumes "0 \<le> header" "header \<le> 255"
    and "CHR ''>'' \<notin> set pre" "ws \<noteq> []" "\<forall>c\<in>set ws. isspace c" "is_hex o1" "is_hex o2"
  shows "(\<exists>h1 h2. is_hex h1 \<and> is_hex h2 \<and> int16 [h1, h2] = header) \<and>
         (\<forall>h1 h2. is_hex h1 \<and> is_hex h2 \<and> int16 [h1, h2] = header \<longrightarrow>
            (\<exists>opcode data.
               parse_frame (pre @ ''>>'' @ ws @ [h1, h2] @ '':'' @ [o1, o2] @ rest) =
                 Some (drop_bit 4 header, header AND 0xF, opcode, data)))"
proof (intro conjI allI impI)
  show "\<exists>h1 h2. is_hex h1 \<and> is_hex h2 \<and> int16 [h1, h2] = header"
    using assms(1,2) by (rule byte_has_two_digits)
next
  fix h1 h2
  assume h: "is_hex h1 \<and> is_hex h2 \<and> int16 [h1, h2] = header"
  let ?s = "''>>'' @ ws @ [h1, h2] @ '':'' @ [o1, o2] @ rest"
  from h assms obtain g3 where "match_here ?s = Some ([h1, h2], [o1, o2], g3)"
    using match_here_shape [of ws h1 h2 o1 o2 rest] by blast
  then have "search ?s = Some ([h1, h2], [o1, o2], g3)" by (rule search_match)
  then have "search (pre @ ?s) = Some ([h1, h2], [o1, o2], g3)"
    using search_skip [OF assms(3)] by simp
  with h show "\<exists>opcode data.
               parse_frame (pre @ ?s) = Some (drop_bit 4 header, header AND 0xF, opcode, data)"
    by (simp add: parse_frame_def Let_def)
qed

theorem parse_frame_header_witness:
  "parse_frame ''TRAFFIC: [   37491]     >> bf:82:36:00'' = Some (0xB, 0xF, 0x82, [0x36, 0x00]) \<and>
   (\<exists>opcode data. parse_frame ''TRAFFIC: [   37491]     >> bf:82:36:00'' =
       Some (drop_bit 4 0xBF, 0xBF AND 0xF, opcode, data))"
proof -
  have d: "is_hex CHR ''b'' \<and> is_hex CHR ''f'' \<and> int16 ''bf'' = 0xBF"
    by (simp add: is_hex_def int16_def hex_digit_val_def)
  have "CHR ''>'' \<notin> set ''TRAFFIC: [   37491]     ''" by simp
  moreover have "\<forall>c\<in>set '' ''. isspace c" by (simp add: isspace_def)
  moreover have "is_hex CHR ''8''" "is_hex CHR ''2''" by (simp_all add: is_hex_def)
  ultimately have "\<forall>h1 h2. is_hex h1 \<and> is_hex h2 \<and> int16 [h1, h2] = 0xBF \<longrightarrow>
      (\<exists>opcode data.
         parse_frame (''TRAFFIC: [   37491]     '' @ ''>>'' @ '' '' @ [h1, h2] @ '':'' @ ''82'' @ '':36:00'') =
           Some (drop_bit 4 0xBF, 0xBF AND 0xF, opcode, data))"
    using parse_frame_header [of "0xBF" "''TRAFFIC: [   37491]     ''" "'' ''" "CHR ''8''" "CHR ''2''" "'':36:00''"]
    by simp
  with d have "\<exists>opcode data.
         parse_frame (''TRAFFIC: [   37491]     '' @ ''>>'' @ '' '' @ ''bf'' @ '':'' @ ''82'' @ '':36:00'') =
           Some (drop_bit 4 0xBF, 0xBF AND 0xF, opcode, data)"
    by blast
  then have "\<exists>opcode data. parse_frame ''TRAFFIC: [   37491]     >> bf:82:36:00'' =
       Some (drop_bit 4 0xBF, 0xBF AND 0xF, opcode, data)"
    by simp
  moreover have "parse_frame ''TRAFFIC: [   37491]     >> bf:82:36:00'' = Some (0xB, 0xF, 0x82, [0x36, 0x00])"
    by (simp add: parser_defs)
  ultimately show ?thesis by blast
qed

section \<open>Facts about one iteration\<close>

lemma active_source_not_audio_mode: "is_active_source f \<Longrightarrow> \<not> is_set_system_audio_mode f"
  by (auto simp: is_active_source_def is_set_system_audio_mode_def)

lemma loop_body_no_frame:
  "frame_of it = None \<Longrightarrow> loop_body D s it = (s, [Print_line (rstrip_newline (line it))], True)"
  by (simp add: loop_body_def frame_of_def)

lemma loop_body_audio_mode:
  assumes "frame_of it = Some f" "is_set_system_audio_mode f"
  shows "loop_body D s it =
           (s\<lparr>pending := None\<rparr>,
            Print_line (rstrip_newline (line it)) # Log_denon_detected #
              (case pending s of None \<Rightarrow> [] | Some p \<Rightarrow> [Log_satisfied (la p) (phys p)]),
            True)"
  using assms by (simp add: loop_body_def frame_of_def split: option.splits)

lemma loop_body_active_source:
  assumes "frame_of it = Some (src_la, dst_la, opcode, data)"
    and "is_active_source (src_la, dst_la, opcode, data)"
  shows "loop_body D s it =
           (if src_la \<in> CONSOLE_LAS then
              (s\<lparr>pending := Some \<lparr>la = src_la,
                                   phys = format_02x (data ! 0) @ '':'' @ format_02x (data ! 1),
                                   deadline = float_add (clock it) PENDING_TIMEOUT_SEC\<rparr>\<rparr>,
               [Print_line (rstrip_newline (line it)),
                Log_became_active src_la (format_02x (data ! 0) @ '':'' @ format_02x (data ! 1))],
               True)
            else (s, [Print_line (rstrip_newline (line it)), Log_not_playback src_la], True))"
  using assms active_source_not_audio_mode [OF assms(2)]
  by (simp add: loop_body_def frame_of_def Let_def)

lemma loop_body_timeout_step:
  assumes "is_timeout_step it"
  shows "loop_body D s it =
           (case timeout_check D s (clock it) (stdin_result it) of
              (s', acts, go_on) \<Rightarrow> (s', Print_line (rstrip_newline (line it)) # acts, go_on))"
  using assms by (auto simp: loop_body_def frame_of_def is_timeout_step_def split: option.splits)

lemma injections_simps:
  "injections [] = []"
  "injections (Stdin_write c # acts) = c # injections acts"
  "injections (Print_line l # acts) = injections acts"
  "injections (Log_denon_detected # acts) = injections acts"
  "injections (Log_satisfied a b # acts) = injections acts"
  "injections (Log_became_active a b # acts) = injections acts"
  "injections (Log_not_playback a # acts) = injections acts"
  "injections (Log_skipped a b # acts) = injections acts"
  "injections (Log_dry_run c # acts) = injections acts"
  "injections (Log_sending c # acts) = injections acts"
  "injections (Log_write_failed c # acts) = injections acts"
  by (simp_all add: injections_def)

lemma injections_append: "injections (xs @ ys) = injections xs @ injections ys"
  by (simp add: injections_def)

section \<open>Claims about one iteration\<close>

text \<open>
  C7: an Active Source frame (destination 15, opcode 0x82, at least two payload bytes) whose
  source address is not in \<open>CONSOLE_LAS\<close> leaves the state, and so the pending slot,
  unchanged, and the iteration writes nothing to cec-client.
\<close>

theorem non_console_active_source_ignored:
  assumes "frame_of it = Some (src_la, 0xF, 0x82, data)" "length data \<ge> 2"
    and "src_la \<notin> CONSOLE_LAS"
  shows "loop_body DRY_RUN s it =
           (s, [Print_line (rstrip_newline (line it)), Log_not_playback src_la], True) \<and>
         pending (fst (loop_body DRY_RUN s it)) = pending s \<and>
         injections (fst (snd (loop_body DRY_RUN s it))) = []"
proof -
  have "is_active_source (src_la, 0xF, 0x82, data)"
    using assms(2) by (simp add: is_active_source_def)
  from loop_body_active_source [OF assms(1) this] assms(3)
  show ?thesis by (simp add: injections_simps)
qed

theorem non_console_active_source_ignored_witness:
  "frame_of \<lparr>line = ''>> 5f:82:11:00'', clock = 7, stdin_result = Write_ok\<rparr> = Some (5, 0xF, 0x82, [0x11, 0]) \<and>
   loop_body False \<lparr>pending = Some \<lparr>la = 4, phys = ''10:00'', deadline = 6\<rparr>, last_injection_time = 0\<rparr>
       \<lparr>line = ''>> 5f:82:11:00'', clock = 7, stdin_result = Write_ok\<rparr> =
     (\<lparr>pending = Some \<lparr>la = 4, phys = ''10:00'', deadline = 6\<rparr>, last_injection_time = 0\<rparr>,
      [Print_line ''>> 5f:82:11:00'', Log_not_playback 5], True)"
proof -
  let ?it = "\<lparr>line = ''>> 5f:82:11:00'', clock = 7, stdin_result = Write_ok\<rparr>"
  have f: "frame_of ?it = Some (5, 0xF, 0x82, [0x11, 0])" by code_simp
  have l: "length [0x11, 0 :: int] \<ge> 2" by simp
  have c: "(5::int) \<notin> CONSOLE_LAS" by (simp add: CONSOLE_LAS_def)
  have r: "rstrip_newline ''>> 5f:82:11:00'' = ''>> 5f:82:11:00''" by code_simp
  show ?thesis
    using f r non_console_active_source_ignored [OF f l c, of False
        "\<lparr>pending = Some \<lparr>la = 4, phys = ''10:00'', deadline = 6\<rparr>, last_injection_time = 0\<rparr>"]
    by simp
qed

lemma timeout_check_effect:
  assumes "timeout_check D s now wr = (s', acts, go_on)"
  shows "last_injection_time s \<le> last_injection_time s' \<and>
         length (injections acts) \<le> 1 \<and>
         (injections acts \<noteq> [] \<longrightarrow>
            \<not> D \<and> wr = Write_ok \<and> last_injection_time s' = now \<and> pending s' = None \<and> go_on \<and>
            injections acts = [cmd_str @ [CHR 0x0A]]) \<and>
         (last_injection_time s' \<noteq> last_injection_time s \<longrightarrow> injections acts \<noteq> []) \<and>
         (pending s' = None \<or> pending s' = pending s) \<and>
         (pending s = None \<longrightarrow> acts = [])"
  using assms
  by (auto simp: timeout_check_def injections_simps MIN_INJECTION_INTERVAL_SEC_def
           split: option.splits if_splits write_result.splits)

lemma timeout_step_not_announce: "is_timeout_step it \<Longrightarrow> \<not> announces_console it"
  by (auto simp: is_timeout_step_def announces_console_def split: option.splits)

lemma iteration_cases:
  obtains (no_frame) "frame_of it = None"
  | (audio_mode) f where "frame_of it = Some f" "is_set_system_audio_mode f"
  | (active_source) src_la dst_la opcode data where
      "frame_of it = Some (src_la, dst_la, opcode, data)"
      "is_active_source (src_la, dst_la, opcode, data)"
  | (timeout_step) "is_timeout_step it"
proof (cases "frame_of it")
  case None
  then show ?thesis by (rule no_frame)
next
  case (Some f)
  show ?thesis
  proof (cases "is_set_system_audio_mode f")
    case True
    with Some show ?thesis by (rule audio_mode)
  next
    case False
    show ?thesis
    proof (cases "is_active_source f")
      case True
      obtain a b c d where "f = (a, b, c, d)" by (cases f)
      with Some True show ?thesis by (auto intro: active_source)
    next
      case na: False
      with Some False have "is_timeout_step it" by (simp add: is_timeout_step_def)
      then show ?thesis by (rule timeout_step)
    qed
  qed
qed

lemma loop_body_effect:
  assumes "loop_body D s it = (s', acts, go_on)"
  shows "last_injection_time s \<le> last_injection_time s' \<and>
         length (injections acts) \<le> 1 \<and>
         (injections acts \<noteq> [] \<longrightarrow>
            \<not> D \<and> stdin_result it = Write_ok \<and> last_injection_time s' = clock it \<and>
            pending s' = None \<and> go_on \<and> injections acts = [cmd_str @ [CHR 0x0A]]) \<and>
         (last_injection_time s' \<noteq> last_injection_time s \<longrightarrow> injections acts \<noteq> []) \<and>
         (\<not> announces_console it \<longrightarrow> pending s' = None \<or> pending s' = pending s) \<and>
         (\<not> announces_console it \<and> pending s = None \<longrightarrow> injections acts = [])"
proof (cases it rule: iteration_cases)
  case no_frame
  from loop_body_no_frame [OF this, of D s] assms show ?thesis
    by (auto simp: injections_simps)
next
  case (audio_mode f)
  from loop_body_audio_mode [OF this, of D s] assms show ?thesis
    by (auto simp: injections_simps split: option.splits)
next
  case (active_source src_la dst_la opcode data)
  from loop_body_active_source [OF this, of D s] assms active_source
    active_source_not_audio_mode [OF active_source(2)]
  show ?thesis
    by (auto simp: injections_simps announces_console_def split: if_splits)
next
  case timeout_step
  obtain s1 a1 g1 where t: "timeout_check D s (clock it) (stdin_result it) = (s1, a1, g1)"
    by (cases "timeout_check D s (clock it) (stdin_result it)")
  from loop_body_timeout_step [OF timeout_step, of D s] assms t
  have "s' = s1" "acts = Print_line (rstrip_newline (line it)) # a1" "go_on = g1" by auto
  with timeout_check_effect [OF t] show ?thesis
    by (auto simp: injections_simps)
qed

lemma timeout_check_break:
  "timeout_check D s now wr = (s', acts, False) \<Longrightarrow> \<not> D \<and> wr = Broken_pipe \<and> s' = s"
  by (auto simp: timeout_check_def split: option.splits if_splits write_result.splits)

lemma loop_body_break:
  assumes "loop_body D s it = (s', acts, False)"
  shows "\<not> D \<and> stdin_result it = Broken_pipe \<and> s' = s \<and> injections acts = []"
proof (cases it rule: iteration_cases)
  case no_frame
  from loop_body_no_frame [OF this, of D s] assms show ?thesis by simp
next
  case (audio_mode f)
  from loop_body_audio_mode [OF this, of D s] assms show ?thesis by simp
next
  case (active_source src_la dst_la opcode data)
  from loop_body_active_source [OF this, of D s] assms show ?thesis by (simp split: if_splits)
next
  case timeout_step
  obtain s1 a1 g1 where t: "timeout_check D s (clock it) (stdin_result it) = (s1, a1, g1)"
    by (cases "timeout_check D s (clock it) (stdin_result it)")
  from loop_body_timeout_step [OF timeout_step, of D s] assms t
  have e: "s' = s1" "acts = Print_line (rstrip_newline (line it)) # a1" "g1 = False" by auto
  with timeout_check_break [of D s "clock it" "stdin_result it" s1 a1] t
    timeout_check_effect [OF t]
  show ?thesis by (auto simp: injections_simps)
qed

section \<open>Facts about the loop\<close>


lemma main_loop_ConsE:
  assumes "main_loop D s (it # its) = (s2, acts, fin)"
  obtains (stop) "loop_body D s it = (s2, acts, False)" "\<not> fin"
  | (go) s1 a1 a2 where "loop_body D s it = (s1, a1, True)" "main_loop D s1 its = (s2, a2, fin)"
      "acts = a1 @ a2"
proof -
  obtain s1 a1 g1 where b: "loop_body D s it = (s1, a1, g1)" by (cases "loop_body D s it")
  show ?thesis
  proof (cases g1)
    case False
    with assms b show ?thesis by (auto intro: stop)
  next
    case True
    obtain s3 a3 f3 where m: "main_loop D s1 its = (s3, a3, f3)" by (cases "main_loop D s1 its")
    with assms b True show ?thesis by (auto intro: go)
  qed
qed

lemma main_loop_monotone:
  "main_loop D s its = (s', acts, fin) \<Longrightarrow> last_injection_time s \<le> last_injection_time s'"
proof (induction its arbitrary: s s' acts fin)
  case Nil
  then show ?case by simp
next
  case (Cons it its)
  from Cons.prems show ?case
  proof (cases rule: main_loop_ConsE)
    case stop
    with loop_body_effect [OF stop(1)] show ?thesis by simp
  next
    case (go s1 a1 a2)
    from loop_body_effect [OF go(1)] Cons.IH [OF go(2)] show ?thesis by simp
  qed
qed

lemma main_loop_dry_run:
  "main_loop True s its = (s', acts, fin) \<Longrightarrow>
     last_injection_time s' = last_injection_time s \<and> injections acts = [] \<and> fin"
proof (induction its arbitrary: s s' acts fin)
  case Nil
  then show ?case by (simp add: injections_simps)
next
  case (Cons it its)
  from Cons.prems show ?case
  proof (cases rule: main_loop_ConsE)
    case stop
    with loop_body_break [OF stop(1)] show ?thesis by simp
  next
    case (go s1 a1 a2)
    from loop_body_effect [OF go(1)] have "last_injection_time s1 = last_injection_time s" "injections a1 = []"
      by auto
    with Cons.IH [OF go(2)] go(3) show ?thesis by (simp add: injections_append)
  qed
qed





lemma timeout_check_qualifying:
  assumes "pending s = Some p" "deadline p \<le> now"
    and "\<not> now - last_injection_time s < MIN_INJECTION_INTERVAL_SEC"
  shows "timeout_check D s now wr =
           (if D then (s\<lparr>pending := None\<rparr>, [Log_dry_run cmd_str], True)
            else (case wr of
                    Write_ok \<Rightarrow>
                      (s\<lparr>last_injection_time := now, pending := None\<rparr>,
                       [Log_sending cmd_str, Stdin_write (cmd_str @ [CHR 0x0A])], True)
                  | Broken_pipe \<Rightarrow> (s, [Log_sending cmd_str, Log_write_failed cmd_str], False)))"
  using assms by (simp add: timeout_check_def)

lemma timeout_check_rate_limited:
  assumes "pending s = Some p" "deadline p \<le> now"
    and "now - last_injection_time s < MIN_INJECTION_INTERVAL_SEC"
  shows "timeout_check D s now wr = (s\<lparr>pending := None\<rparr>, [Log_skipped (la p) (phys p)], True)"
  using assms by (simp add: timeout_check_def)

text \<open>
  The deadline stored is the float sum. At the reading below it is smaller than the exact sum,
  and a frame read at the stored deadline fires it.
\<close>

lemma deadline_fires_below_exact_sum:
  "main_loop False \<lparr>pending = None, last_injection_time = 0\<rparr>
     [\<lparr>line = ''>> 4f:82:10:00'', clock = 2 ^ 31 - 3 / 2 ^ 22, stdin_result = Write_ok\<rparr>,
      \<lparr>line = ''>> 0f:36'', clock = 2 ^ 31 + 1 / 2 - 1 / 2 ^ 20, stdin_result = Write_ok\<rparr>] =
     (\<lparr>pending = None, last_injection_time = 2 ^ 31 + 1 / 2 - 1 / 2 ^ 20\<rparr>,
      [Print_line ''>> 4f:82:10:00'', Log_became_active 4 ''10:00'',
       Print_line ''>> 0f:36'', Log_sending ''tx 15:70:00:00'',
       Stdin_write (''tx 15:70:00:00'' @ [CHR 0x0A])], True)"
  by code_simp

section \<open>Claims about the loop\<close>

text \<open>
  C3: let an iteration at clock reading \<open>t0\<close> write the injection command. After any further
  iterations \<open>its\<close> (in which any number of pending consoles may come and go), a timeout step
  at clock reading \<open>t1\<close> whose pending deadline has passed and with
  \<open>t1 - t0 < MIN_INJECTION_INTERVAL_SEC\<close> writes nothing and clears the pending console.
\<close>

theorem rate_limit_blocks_injection:
  assumes "loop_body DRY_RUN s it0 = (s1, acts0, go0)" "injections acts0 \<noteq> []"
    and "main_loop DRY_RUN s1 its = (s2, acts, fin)"
    and "is_timeout_step it1" "pending s2 = Some p" "deadline p \<le> clock it1"
    and "clock it1 - clock it0 < MIN_INJECTION_INTERVAL_SEC"
  shows "loop_body DRY_RUN s2 it1 =
           (s2\<lparr>pending := None\<rparr>,
            [Print_line (rstrip_newline (line it1)), Log_skipped (la p) (phys p)], True) \<and>
         injections (fst (snd (loop_body DRY_RUN s2 it1))) = [] \<and>
         pending (fst (loop_body DRY_RUN s2 it1)) = None"
proof -
  from loop_body_effect [OF assms(1)] assms(2) have "last_injection_time s1 = clock it0" by simp
  with main_loop_monotone [OF assms(3)] have "clock it0 \<le> last_injection_time s2" by simp
  with assms(7) have "clock it1 - last_injection_time s2 < MIN_INJECTION_INTERVAL_SEC" by simp
  from timeout_check_rate_limited [OF assms(5,6) this]
    loop_body_timeout_step [OF assms(4), of DRY_RUN s2]
  show ?thesis by (simp add: injections_simps)
qed

theorem rate_limit_blocks_injection_witness:
  "loop_body False \<lparr>pending = Some \<lparr>la = 4, phys = ''10:00'', deadline = 1000.5\<rparr>, last_injection_time = 0\<rparr>
       \<lparr>line = ''>> 0f:36'', clock = 1000.5, stdin_result = Write_ok\<rparr> =
     (\<lparr>pending = None, last_injection_time = 1000.5\<rparr>,
      [Print_line ''>> 0f:36'', Log_sending ''tx 15:70:00:00'', Stdin_write (''tx 15:70:00:00'' @ [CHR 0x0A])],
      True) \<and>
   main_loop False \<lparr>pending = None, last_injection_time = 1000.5\<rparr>
       [\<lparr>line = ''>> 8f:82:20:00'', clock = 1000.625, stdin_result = Write_ok\<rparr>] =
     (\<lparr>pending = Some \<lparr>la = 8, phys = ''20:00'', deadline = 1001.125\<rparr>, last_injection_time = 1000.5\<rparr>,
      [Print_line ''>> 8f:82:20:00'', Log_became_active 8 ''20:00''], True) \<and>
   loop_body False \<lparr>pending = Some \<lparr>la = 8, phys = ''20:00'', deadline = 1001.125\<rparr>, last_injection_time = 1000.5\<rparr>
       \<lparr>line = ''>> 0f:36'', clock = 1001.125, stdin_result = Write_ok\<rparr> =
     (\<lparr>pending = None, last_injection_time = 1000.5\<rparr>,
      [Print_line ''>> 0f:36'', Log_skipped 8 ''20:00''], True)"
proof -
  let ?s = "\<lparr>pending = Some \<lparr>la = 4, phys = ''10:00'', deadline = 1000.5\<rparr>, last_injection_time = 0\<rparr>"
  let ?ita = "\<lparr>line = ''>> 0f:36'', clock = 1000.5, stdin_result = Write_ok\<rparr>"
  let ?s1 = "\<lparr>pending = None, last_injection_time = 1000.5\<rparr>"
  let ?first = "[Print_line ''>> 0f:36'', Log_sending ''tx 15:70:00:00'', Stdin_write (''tx 15:70:00:00'' @ [CHR 0x0A])]"
  let ?its = "[\<lparr>line = ''>> 8f:82:20:00'', clock = 1000.625, stdin_result = Write_ok\<rparr>]"
  let ?p = "\<lparr>la = 8, phys = ''20:00'', deadline = 1001.125\<rparr>"
  let ?s2 = "\<lparr>pending = Some ?p, last_injection_time = 1000.5\<rparr>"
  let ?between = "[Print_line ''>> 8f:82:20:00'', Log_became_active 8 ''20:00'']"
  let ?itb = "\<lparr>line = ''>> 0f:36'', clock = 1001.125, stdin_result = Write_ok\<rparr>"
  have h1: "loop_body False ?s ?ita = (?s1, ?first, True)" by code_simp
  have h2: "injections ?first \<noteq> []" by (simp add: injections_simps)
  have h3: "main_loop False ?s1 ?its = (?s2, ?between, True)" by code_simp
  have h4: "is_timeout_step ?itb" by code_simp
  have h5: "pending ?s2 = Some ?p" by simp
  have h6: "deadline ?p \<le> clock ?itb" by simp
  have h7: "clock ?itb - clock ?ita < MIN_INJECTION_INTERVAL_SEC"
    by (simp add: MIN_INJECTION_INTERVAL_SEC_def)
  have r: "rstrip_newline ''>> 0f:36'' = ''>> 0f:36''" by code_simp
  from rate_limit_blocks_injection [OF h1 h2 h3 h4 h5 h6 h7] r
  have "loop_body False ?s2 ?itb =
     (\<lparr>pending = None, last_injection_time = 1000.5\<rparr>,
      [Print_line ''>> 0f:36'', Log_skipped 8 ''20:00''], True)" by simp
  with h1 h3 show ?thesis by simp
qed

text \<open>
  C10: when the write of the injection command raises \<^verbatim>\<open>BrokenPipeError\<close>, the iteration
  leaves the state as it was (\<open>last_injection_time\<close> keeps its value and the pending console
  is not cleared) and the loop stops: the lines after it are not processed.
\<close>

theorem broken_pipe_stops_loop:
  assumes "is_timeout_step it" "pending s = Some p" "deadline p \<le> clock it"
    and "\<not> clock it - last_injection_time s < MIN_INJECTION_INTERVAL_SEC"
    and "stdin_result it = Broken_pipe"
  shows "loop_body False s it =
           (s, [Print_line (rstrip_newline (line it)), Log_sending cmd_str, Log_write_failed cmd_str],
            False) \<and>
         main_loop False s (it # its) =
           (s, [Print_line (rstrip_newline (line it)), Log_sending cmd_str, Log_write_failed cmd_str],
            False)"
proof -
  from timeout_check_qualifying [OF assms(2,3,4), of False "stdin_result it"] assms(5)
    loop_body_timeout_step [OF assms(1), of False s]
  have "loop_body False s it =
           (s, [Print_line (rstrip_newline (line it)), Log_sending cmd_str, Log_write_failed cmd_str],
            False)" by simp
  then show ?thesis by simp
qed

theorem broken_pipe_stops_loop_witness:
  "main_loop False \<lparr>pending = Some \<lparr>la = 4, phys = ''10:00'', deadline = 1000.5\<rparr>, last_injection_time = 0\<rparr>
       [\<lparr>line = ''>> 0f:36'', clock = 1000.5, stdin_result = Broken_pipe\<rparr>,
        \<lparr>line = ''>> 5f:72:01'', clock = 1000.7, stdin_result = Broken_pipe\<rparr>] =
     (\<lparr>pending = Some \<lparr>la = 4, phys = ''10:00'', deadline = 1000.5\<rparr>, last_injection_time = 0\<rparr>,
      [Print_line ''>> 0f:36'', Log_sending ''tx 15:70:00:00'', Log_write_failed ''tx 15:70:00:00''],
      False)"
proof -
  let ?p = "\<lparr>la = 4, phys = ''10:00'', deadline = 1000.5\<rparr>"
  let ?s = "\<lparr>pending = Some ?p, last_injection_time = 0\<rparr>"
  let ?it = "\<lparr>line = ''>> 0f:36'', clock = 1000.5, stdin_result = Broken_pipe\<rparr>"
  have h1: "is_timeout_step ?it" by code_simp
  have h2: "pending ?s = Some ?p" by simp
  have h3: "deadline ?p \<le> clock ?it" by simp
  have h4: "\<not> clock ?it - last_injection_time ?s < MIN_INJECTION_INTERVAL_SEC"
    by (simp add: MIN_INJECTION_INTERVAL_SEC_def)
  have h5: "stdin_result ?it = Broken_pipe" by simp
  have r: "rstrip_newline ''>> 0f:36'' = ''>> 0f:36''" by code_simp
  from broken_pipe_stops_loop [OF h1 h2 h3 h4 h5,
      of "[\<lparr>line = ''>> 5f:72:01'', clock = 1000.7, stdin_result = Broken_pipe\<rparr>]"] r
  show ?thesis by (simp add: cmd_str_def)
qed





text \<open>
  C9: \<open>last_injection_time\<close> changes only in an iteration that is not a dry run and whose
  write succeeded. With the dry-run flag set, a qualifying timeout step (deadline passed,
  rate limit satisfied) logs the command it would send, clears the pending console and leaves
  \<open>last_injection_time\<close> as it was; so after any further dry-run iterations a later timeout
  step whose deadline has passed is again not rate-limited.
\<close>

theorem dry_run_keeps_last_injection_time:
  assumes "is_timeout_step it1" "pending s = Some p1" "deadline p1 \<le> clock it1"
    and "\<not> clock it1 - last_injection_time s < MIN_INJECTION_INTERVAL_SEC"
    and "main_loop True (s\<lparr>pending := None\<rparr>) its = (s2, acts, fin)"
    and "is_timeout_step it2" "pending s2 = Some p2" "deadline p2 \<le> clock it2"
    and "clock it1 \<le> clock it2"
  shows "loop_body True s it1 =
           (s\<lparr>pending := None\<rparr>,
            [Print_line (rstrip_newline (line it1)), Log_dry_run cmd_str], True) \<and>
         last_injection_time s2 = last_injection_time s \<and>
         loop_body True s2 it2 =
           (s2\<lparr>pending := None\<rparr>,
            [Print_line (rstrip_newline (line it2)), Log_dry_run cmd_str], True) \<and>
         (\<forall>D s0 it s' acts' go_on.
            loop_body D s0 it = (s', acts', go_on) \<and>
            last_injection_time s' \<noteq> last_injection_time s0 \<longrightarrow>
              \<not> D \<and> stdin_result it = Write_ok \<and> injections acts' = [cmd_str @ [CHR 0x0A]] \<and>
              last_injection_time s' = clock it)"
proof -
  have first: "loop_body True s it1 =
           (s\<lparr>pending := None\<rparr>,
            [Print_line (rstrip_newline (line it1)), Log_dry_run cmd_str], True)"
    using timeout_check_qualifying [OF assms(2,3,4), of True "stdin_result it1"]
      loop_body_timeout_step [OF assms(1), of True s] by simp
  have keep: "last_injection_time s2 = last_injection_time s"
    using main_loop_dry_run [OF assms(5)] by simp
  with assms(4,9) have "\<not> clock it2 - last_injection_time s2 < MIN_INJECTION_INTERVAL_SEC"
    by simp
  from timeout_check_qualifying [OF assms(7,8) this, of True "stdin_result it2"]
    loop_body_timeout_step [OF assms(6), of True s2]
  have second: "loop_body True s2 it2 =
           (s2\<lparr>pending := None\<rparr>,
            [Print_line (rstrip_newline (line it2)), Log_dry_run cmd_str], True)" by simp
  have only: "\<not> D \<and> stdin_result it = Write_ok \<and> injections acts' = [cmd_str @ [CHR 0x0A]] \<and>
              last_injection_time s' = clock it"
    if "loop_body D s0 it = (s', acts', go_on) \<and> last_injection_time s' \<noteq> last_injection_time s0"
    for D s0 it s' acts' go_on
    using loop_body_effect [of D s0 it s' acts' go_on] that by blast
  from first keep second only show ?thesis by blast
qed

theorem dry_run_keeps_last_injection_time_witness:
  "loop_body True \<lparr>pending = Some \<lparr>la = 4, phys = ''10:00'', deadline = 1000.5\<rparr>, last_injection_time = 0\<rparr>
       \<lparr>line = ''>> 0f:36'', clock = 1000.5, stdin_result = Write_ok\<rparr> =
     (\<lparr>pending = None, last_injection_time = 0\<rparr>,
      [Print_line ''>> 0f:36'', Log_dry_run ''tx 15:70:00:00''], True) \<and>
   main_loop True \<lparr>pending = None, last_injection_time = 0\<rparr>
       [\<lparr>line = ''>> 8f:82:20:00'', clock = 1000.625, stdin_result = Write_ok\<rparr>] =
     (\<lparr>pending = Some \<lparr>la = 8, phys = ''20:00'', deadline = 1001.125\<rparr>, last_injection_time = 0\<rparr>,
      [Print_line ''>> 8f:82:20:00'', Log_became_active 8 ''20:00''], True) \<and>
   loop_body True \<lparr>pending = Some \<lparr>la = 8, phys = ''20:00'', deadline = 1001.125\<rparr>, last_injection_time = 0\<rparr>
       \<lparr>line = ''>> 0f:36'', clock = 1001.125, stdin_result = Write_ok\<rparr> =
     (\<lparr>pending = None, last_injection_time = 0\<rparr>,
      [Print_line ''>> 0f:36'', Log_dry_run ''tx 15:70:00:00''], True)"
proof -
  let ?pa = "\<lparr>la = 4, phys = ''10:00'', deadline = 1000.5\<rparr>"
  let ?s = "\<lparr>pending = Some ?pa, last_injection_time = 0\<rparr>"
  let ?ita = "\<lparr>line = ''>> 0f:36'', clock = 1000.5, stdin_result = Write_ok\<rparr>"
  let ?its = "[\<lparr>line = ''>> 8f:82:20:00'', clock = 1000.625, stdin_result = Write_ok\<rparr>]"
  let ?pb = "\<lparr>la = 8, phys = ''20:00'', deadline = 1001.125\<rparr>"
  let ?sb = "\<lparr>pending = Some ?pb, last_injection_time = 0\<rparr>"
  let ?between = "[Print_line ''>> 8f:82:20:00'', Log_became_active 8 ''20:00'']"
  let ?itb = "\<lparr>line = ''>> 0f:36'', clock = 1001.125, stdin_result = Write_ok\<rparr>"
  have h1: "is_timeout_step ?ita" by code_simp
  have h2: "pending ?s = Some ?pa" by simp
  have h3: "deadline ?pa \<le> clock ?ita" by simp
  have h4: "\<not> clock ?ita - last_injection_time ?s < MIN_INJECTION_INTERVAL_SEC"
    by (simp add: MIN_INJECTION_INTERVAL_SEC_def)
  have h5: "main_loop True (?s\<lparr>pending := None\<rparr>) ?its = (?sb, ?between, True)" by code_simp
  have h6: "is_timeout_step ?itb" by code_simp
  have h7: "pending ?sb = Some ?pb" by simp
  have h8: "deadline ?pb \<le> clock ?itb" by simp
  have h9: "clock ?ita \<le> clock ?itb" by simp
  have r: "rstrip_newline ''>> 0f:36'' = ''>> 0f:36''" by code_simp
  from dry_run_keeps_last_injection_time [OF h1 h2 h3 h4 h5 h6 h7 h8 h9] r
  have "loop_body True ?s ?ita =
          (\<lparr>pending = None, last_injection_time = 0\<rparr>,
           [Print_line ''>> 0f:36'', Log_dry_run ''tx 15:70:00:00''], True)"
    and "loop_body True ?sb ?itb =
          (\<lparr>pending = None, last_injection_time = 0\<rparr>,
           [Print_line ''>> 0f:36'', Log_dry_run ''tx 15:70:00:00''], True)"
    by (simp_all add: cmd_str_def)
  with h5 show ?thesis by simp
qed

text \<open>
  When a frame that reaches the timeout check is read at or after the deadline, with readings
  of \<^verbatim>\<open>time.time()\<close> (at least 3.0) and a working pipe, the loop writes the command at that
  frame.
\<close>

lemma injection_at_next_frame:
  assumes "frame_of it0 = Some (4, 0xF, 0x82, [0x10, 0x00])"
    and "is_timeout_step it1" "float_add (clock it0) PENDING_TIMEOUT_SEC \<le> clock it1"
    and "MIN_INJECTION_INTERVAL_SEC \<le> clock it1" "stdin_result it1 = Write_ok"
  shows "main False [it0, it1] =
           (\<lparr>pending = None, last_injection_time = clock it1\<rparr>,
            [Print_line (rstrip_newline (line it0)), Log_became_active 4 ''10:00'',
             Print_line (rstrip_newline (line it1)), Log_sending ''tx 15:70:00:00'',
             Stdin_write (''tx 15:70:00:00'' @ [CHR 0x0A])], True)"
proof -
  let ?p = "\<lparr>la = 4, phys = ''10:00'', deadline = float_add (clock it0) PENDING_TIMEOUT_SEC\<rparr>"
  let ?sa = "\<lparr>pending = Some ?p, last_injection_time = 0\<rparr>"
  have ph: "format_02x ([0x10, 0x00] ! 0) @ '':'' @ format_02x ([0x10, 0x00] ! 1) = ''10:00''"
    by code_simp
  have a: "is_active_source (4, 0xF, 0x82, [0x10, 0x00])" by (simp add: is_active_source_def)
  have b0: "loop_body False initial_state it0 =
              (?sa, [Print_line (rstrip_newline (line it0)), Log_became_active 4 ''10:00''], True)"
    using loop_body_active_source [OF assms(1) a, of False initial_state] ph
    by (simp add: CONSOLE_LAS_def initial_state_def)
  have q: "\<not> clock it1 - last_injection_time ?sa < MIN_INJECTION_INTERVAL_SEC"
    using assms(4) by simp
  have "pending ?sa = Some ?p" "deadline ?p \<le> clock it1" using assms(3) by simp_all
  from timeout_check_qualifying [OF this q, of False "stdin_result it1"] assms(5)
    loop_body_timeout_step [OF assms(2), of False ?sa]
  have b1: "loop_body False ?sa it1 =
              (\<lparr>pending = None, last_injection_time = clock it1\<rparr>,
               [Print_line (rstrip_newline (line it1)), Log_sending ''tx 15:70:00:00'',
                Stdin_write (''tx 15:70:00:00'' @ [CHR 0x0A])], True)"
    by (simp add: cmd_str_def)
  from b0 b1 show ?thesis by (simp add: main_def)
qed

text \<open>
  C2: from the initial state, console 4 announces Active Source with payload 10:00 at clock
  reading \<open>t0\<close> and no Set System Audio Mode follows; the command \<^verbatim>\<open>tx 15:70:00:00\<close> is to be
  written at \<open>t0 + 0.5\<close> and \<open>last_injection_time\<close> set to that time. The loop takes no step at
  \<open>t0 + 0.5\<close> by itself. Here \<open>t0 = 1000\<close>: when no further line is read, the run ends with the
  console still pending and nothing written; when the next frame is read two seconds after
  the announcement, the command is written only then and \<open>last_injection_time\<close> is 1002.
\<close>

theorem scenario_a_waits_for_next_frame:
  "main False [\<lparr>line = ''>> 4f:82:10:00'', clock = 1000, stdin_result = Write_ok\<rparr>] =
     (\<lparr>pending = Some \<lparr>la = 4, phys = ''10:00'', deadline = 1000.5\<rparr>, last_injection_time = 0\<rparr>,
      [Print_line ''>> 4f:82:10:00'', Log_became_active 4 ''10:00''], True) \<and>
   main False [\<lparr>line = ''>> 4f:82:10:00'', clock = 1000, stdin_result = Write_ok\<rparr>,
               \<lparr>line = ''>> 0f:36'', clock = 1002, stdin_result = Write_ok\<rparr>] =
     (\<lparr>pending = None, last_injection_time = 1002\<rparr>,
      [Print_line ''>> 4f:82:10:00'', Log_became_active 4 ''10:00'',
       Print_line ''>> 0f:36'', Log_sending ''tx 15:70:00:00'',
       Stdin_write (''tx 15:70:00:00'' @ [CHR 0x0A])], True)"
  by code_simp

text \<open>
  C1: the body of the loop runs once per line read from cec-client and nowhere else. When the
  last line read is a console announcement and no further line arrives, the run ends with the
  console still pending and nothing written, however much time passes after the deadline.
\<close>

theorem quiet_bus_keeps_pending:
  "main False [\<lparr>line = ''TRAFFIC: [   37491]     >> 4f:82:10:00'', clock = 1000,
                 stdin_result = Write_ok\<rparr>] =
     (\<lparr>pending = Some \<lparr>la = 4, phys = ''10:00'', deadline = 1000.5\<rparr>, last_injection_time = 0\<rparr>,
      [Print_line ''TRAFFIC: [   37491]     >> 4f:82:10:00'', Log_became_active 4 ''10:00''], True)"
  by code_simp

end
